theory Spec2Isabelle
  imports Main
begin

section \<open>Text formatter of \<^verbatim>\<open>app.py\<close>: wrapping and justification\<close>

text \<open>
  A shallow embedding of the class \<^verbatim>\<open>TextFormatter\<close> and of the endpoint
  \<^verbatim>\<open>format_endpoint\<close>. A Python \<^verbatim>\<open>str\<close> is a \<^typ>\<open>string\<close>, one \<^typ>\<open>char\<close> for one
  code point below 256; Python's \<^verbatim>\<open>int\<close> is \<^typ>\<open>int\<close>. Two operations of the
  formatter can raise: \<^verbatim>\<open>divmod\<close> (on a zero divisor) and the repetition \<^verbatim>\<open>" " * n\<close> (on a
  count that does not fit an index, or for want of memory). The functions that reach
  them return \<open>py_error + 'a\<close>. The formatter is modelled twice: first with \<^verbatim>\<open>" " * n\<close>
  as the string it returns when it returns, which is what the statements about the
  lines produced are about; then, in the functions whose names end in \<open>_lim\<close>, with the
  two failures of the repetition, which is what decides whether a call returns.
\<close>

subsection \<open>The string operations of Python that the formatter calls\<close>

datatype py_error = ZeroDivisionError | OverflowError | MemoryError

text \<open>
  \<^verbatim>\<open>str.isspace\<close> on one character: the code points below 256 that \<^verbatim>\<open>str.split()\<close>,
  \<^verbatim>\<open>str.strip()\<close> and the regular expression class \<^verbatim>\<open>\s\<close> treat as whitespace
  (tab, line feed, vertical tab, form feed, carriage return, the four separators
  0x1C to 0x1F, space, NEL 0x85 and the no-break space 0xA0).
\<close>

definition is_space :: "char \<Rightarrow> bool" where
  "is_space c \<longleftrightarrow>
     c \<in> {CHR 0x09, CHR 0x0A, CHR 0x0B, CHR 0x0C, CHR 0x0D, CHR 0x1C, CHR 0x1D,
          CHR 0x1E, CHR 0x1F, CHR 0x20, CHR 0x85, CHR 0xA0}"

text \<open>
  \<^verbatim>\<open>s.split()\<close> without arguments: a scan that closes the word read so far at each
  whitespace character and never emits an empty word.
\<close>

fun split_scan :: "string \<Rightarrow> string \<Rightarrow> string list" where
  "split_scan cur [] = (if cur = [] then [] else [cur])"
| "split_scan cur (c # cs) =
     (if is_space c then (if cur = [] then split_scan [] cs else cur # split_scan [] cs)
      else split_scan (cur @ [c]) cs)"

definition split_ws :: "string \<Rightarrow> string list" where
  "split_ws s = split_scan [] s"

text \<open>\<^verbatim>\<open>s.strip()\<close>: whitespace removed at both ends.\<close>

definition strip :: "string \<Rightarrow> string" where
  "strip s = rev (dropWhile is_space (rev (dropWhile is_space s)))"

text \<open>
  \<^verbatim>\<open>sep.join(xs)\<close>. The type is that of lists in general, so that the same function
  also puts a separator line between lists of lines in the statements below.
\<close>

fun join :: "'a list \<Rightarrow> 'a list list \<Rightarrow> 'a list" where
  "join sep [] = []"
| "join sep [x] = x"
| "join sep (x # y # ys) = x @ sep @ join sep (y # ys)"

text \<open>
  One attempt of the pattern \<^verbatim>\<open>\n\s*\n\<close> at the head of a string; the result is what
  follows the match. The greedy \<^verbatim>\<open>\s*\<close> first takes the whole run of whitespace after
  the line feed and then gives characters back until a line feed follows, so the match
  ends at the last line feed of that run.
\<close>

definition match_sep :: "string \<Rightarrow> string option" where
  "match_sep s =
     (case s of
        [] \<Rightarrow> None
      | c # cs \<Rightarrow>
          if c \<noteq> CHR 0x0A then None
          else let run = takeWhile is_space cs; rest = dropWhile is_space cs
               in if CHR 0x0A \<in> set run
                  then Some (rev (takeWhile (\<lambda>d. d \<noteq> CHR 0x0A) (rev run)) @ rest)
                  else None)"

lemma match_sep_shorter: "match_sep s = Some r \<Longrightarrow> length r < length s"
proof -
  assume a: "match_sep s = Some r"
  then obtain c cs where s: "s = c # cs" by (cases s) (auto simp: match_sep_def)
  let ?run = "takeWhile is_space cs"
  from a s have r: "r = rev (takeWhile (\<lambda>d. d \<noteq> CHR 0x0A) (rev ?run)) @ dropWhile is_space cs"
    by (auto simp: match_sep_def Let_def split: if_splits)
  have "length (takeWhile (\<lambda>d. d \<noteq> CHR 0x0A) (rev ?run)) \<le> length ?run"
    using length_takeWhile_le [of "\<lambda>d. d \<noteq> CHR 0x0A" "rev ?run"] by simp
  moreover have "length ?run + length (dropWhile is_space cs) = length cs"
    using takeWhile_dropWhile_id [of is_space cs] by (metis length_append)
  ultimately show ?thesis using r s by simp
qed

text \<open>
  \<^verbatim>\<open>re.split(r'\n\s*\n', s)\<close>: the pieces between the successive leftmost matches.
\<close>

function re_split_scan :: "string \<Rightarrow> string \<Rightarrow> string list" where
  "re_split_scan cur [] = [cur]"
| "re_split_scan cur (c # cs) =
     (case match_sep (c # cs) of
        Some rest \<Rightarrow> cur # re_split_scan [] rest
      | None \<Rightarrow> re_split_scan (cur @ [c]) cs)"
  by pat_completeness auto
termination
  by (relation "measure (\<lambda>(cur, s). length s)") (auto dest: match_sep_shorter)

definition re_split :: "string \<Rightarrow> string list" where
  "re_split s = re_split_scan [] s"

text \<open>
  \<^verbatim>\<open>s.splitlines()\<close>: the line boundaries below 256 are line feed, carriage return
  (with a following line feed as one boundary), vertical tab, form feed, the separators
  0x1C to 0x1E and NEL; a final boundary opens no empty last line.
\<close>

definition is_linebreak :: "char \<Rightarrow> bool" where
  "is_linebreak c \<longleftrightarrow>
     c \<in> {CHR 0x0A, CHR 0x0B, CHR 0x0C, CHR 0x0D, CHR 0x1C, CHR 0x1D, CHR 0x1E, CHR 0x85}"

fun splitlines_scan :: "string \<Rightarrow> string \<Rightarrow> string list" where
  "splitlines_scan cur [] = (if cur = [] then [] else [cur])"
| "splitlines_scan cur [c] = (if is_linebreak c then [cur] else [cur @ [c]])"
| "splitlines_scan cur (c # d # cs) =
     (if c = CHR 0x0D \<and> d = CHR 0x0A then cur # splitlines_scan [] cs
      else if is_linebreak c then cur # splitlines_scan [] (d # cs)
      else splitlines_scan (cur @ [c]) (d # cs))"

definition splitlines :: "string \<Rightarrow> string list" where
  "splitlines s = splitlines_scan [] s"

text \<open>\<^verbatim>\<open>divmod(a, b)\<close> on integers: floor division, raising on a zero divisor.\<close>

definition py_divmod :: "int \<Rightarrow> int \<Rightarrow> py_error + int \<times> int" where
  "py_divmod a b = (if b = 0 then Inl ZeroDivisionError else Inr (a div b, a mod b))"

text \<open>
  The string that \<^verbatim>\<open>" " * n\<close> returns when it returns: \<open>n\<close> spaces, none when \<open>n\<close> is
  negative. When it does not return is the matter of \<open>repeat_space\<close> below.
\<close>

definition spaces :: "int \<Rightarrow> string" where
  "spaces n = replicate (nat n) CHR '' ''"

subsection \<open>The class \<^verbatim>\<open>TextFormatter\<close>\<close>

record TextFormatter =
  default_width :: int

text \<open>
  The loop of \<^verbatim>\<open>wrap_paragraph\<close> over the words, on the state
  \<open>(lines, current, curr_len)\<close>.
\<close>

fun wrap_loop :: "int \<Rightarrow> string list \<Rightarrow> string list \<times> string list \<times> int
    \<Rightarrow> string list \<times> string list \<times> int" where
  "wrap_loop width [] st = st"
| "wrap_loop width (w # ws) (lines, current, curr_len) =
     (if curr_len = 0 then wrap_loop width ws (lines, current @ [w], int (length w))
      else if curr_len + 1 + int (length w) \<le> width
      then wrap_loop width ws (lines, current @ [w], curr_len + (1 + int (length w)))
      else wrap_loop width ws (lines @ [join '' '' current], [w], int (length w)))"

definition wrap_paragraph :: "string \<Rightarrow> int \<Rightarrow> string list" where
  "wrap_paragraph paragraph width =
     (case wrap_loop width (split_ws paragraph) ([], [], 0) of
        (lines, current, curr_len) \<Rightarrow>
          if current \<noteq> [] then lines @ [join '' '' current] else lines)"

text \<open>
  The loop of \<^verbatim>\<open>justify_line\<close> over \<^verbatim>\<open>enumerate(words)\<close>, from index \<open>i\<close>; the result
  is the list \<^verbatim>\<open>parts\<close>.
\<close>

fun justify_parts :: "int \<Rightarrow> int \<Rightarrow> int \<Rightarrow> int \<Rightarrow> string list \<Rightarrow> string list" where
  "justify_parts gaps base_space extra i [] = []"
| "justify_parts gaps base_space extra i (w # ws) =
     (if i < gaps
      then [w, spaces (base_space + (if i < extra then 1 else 0))]
      else [w])
     @ justify_parts gaps base_space extra (i + 1) ws"

definition justify_line :: "string list \<Rightarrow> int \<Rightarrow> py_error + string" where
  "justify_line words width =
     (if words = [] then Inr []
      else if length words = 1
      then Inr (hd words @ spaces (max 0 (width - int (length (hd words)))))
      else
        let total_words_len = sum_list (map (\<lambda>w. int (length w)) words);
            total_spaces = width - total_words_len;
            gaps = int (length words) - 1
        in case py_divmod total_spaces gaps of
             Inl e \<Rightarrow> Inl e
           | Inr (base_space, extra) \<Rightarrow>
               Inr (concat (justify_parts gaps base_space extra 0 words)))"

text \<open>
  The loop of \<^verbatim>\<open>justify_paragraph\<close> over \<^verbatim>\<open>enumerate(wrapped)\<close>, from index \<open>i\<close>, where
  \<open>n\<close> is \<^verbatim>\<open>len(wrapped)\<close>.
\<close>

fun justify_lines :: "int \<Rightarrow> bool \<Rightarrow> int \<Rightarrow> int \<Rightarrow> string list \<Rightarrow> py_error + string list" where
  "justify_lines width justify_last_line n i [] = Inr []"
| "justify_lines width justify_last_line n i (line # rest) =
     (let words = split_ws line
      in case (if i = n - 1 \<and> \<not> justify_last_line then Inr (join '' '' words)
               else justify_line words width) of
           Inl e \<Rightarrow> Inl e
         | Inr j \<Rightarrow>
             (case justify_lines width justify_last_line n (i + 1) rest of
                Inl e \<Rightarrow> Inl e
              | Inr js \<Rightarrow> Inr (j # js)))"

definition justify_paragraph :: "string \<Rightarrow> int \<Rightarrow> bool \<Rightarrow> py_error + string list" where
  "justify_paragraph paragraph width justify_last_line =
     (let wrapped = wrap_paragraph paragraph width
      in justify_lines width justify_last_line (int (length wrapped)) 0 wrapped)"

text \<open>
  The body of the loop of \<^verbatim>\<open>format_text\<close> up to the assignment of \<^verbatim>\<open>lines\<close>, for one
  paragraph \<open>p\<close>, and the loop itself, whose result is \<^verbatim>\<open>formatted_paras\<close>.
\<close>

definition para_lines :: "int \<Rightarrow> bool \<Rightarrow> bool \<Rightarrow> string \<Rightarrow> py_error + string list" where
  "para_lines width justify justify_last_line p =
     (let p_clean = join '' '' (split_ws p)
      in if justify then justify_paragraph p_clean width justify_last_line
         else Inr (wrap_paragraph p_clean width))"

fun format_paras :: "int \<Rightarrow> bool \<Rightarrow> bool \<Rightarrow> string list \<Rightarrow> py_error + string list" where
  "format_paras width justify justify_last_line [] = Inr []"
| "format_paras width justify justify_last_line (p # ps) =
     (case para_lines width justify justify_last_line p of
        Inl e \<Rightarrow> Inl e
      | Inr lines \<Rightarrow>
          (case format_paras width justify justify_last_line ps of
             Inl e \<Rightarrow> Inl e
           | Inr rest \<Rightarrow> Inr (join [CHR 0x0A] lines # rest)))"

definition format_text :: "TextFormatter \<Rightarrow> string \<Rightarrow> int option \<Rightarrow> bool \<Rightarrow> bool
    \<Rightarrow> py_error + string" where
  "format_text self text width justify justify_last_line =
     (let width' = (case width of None \<Rightarrow> default_width self | Some w \<Rightarrow> w);
          paragraphs = re_split (strip text)
      in case format_paras width' justify justify_last_line paragraphs of
           Inl e \<Rightarrow> Inl e
         | Inr formatted_paras \<Rightarrow> Inr (join [CHR 0x0A, CHR 0x0A] formatted_paras))"

subsection \<open>The endpoint \<^verbatim>\<open>POST /format\<close>\<close>

text \<open>
  The fields of \<^verbatim>\<open>FormatRequest\<close> (\<^verbatim>\<open>text\<close>, \<^verbatim>\<open>width\<close>, \<^verbatim>\<open>justify\<close>,
  \<^verbatim>\<open>justify_last_line\<close>) and the keys of the response (\<^verbatim>\<open>formatted\<close>, \<^verbatim>\<open>lines\<close>)
  carry a prefix here, since a record field is a constant of the whole theory.
\<close>

record FormatRequest =
  req_text :: string
  req_width :: int
  req_justify :: bool
  req_justify_last_line :: bool

record FormatResult =
  res_formatted :: string
  res_lines :: "string list"

definition formatter :: TextFormatter where
  "formatter = \<lparr>default_width = 40\<rparr>"

definition format_endpoint :: "FormatRequest \<Rightarrow> py_error + FormatResult" where
  "format_endpoint req =
     (case format_text formatter (req_text req) (Some (req_width req)) (req_justify req)
             (req_justify_last_line req) of
        Inl e \<Rightarrow> Inl e
      | Inr s \<Rightarrow> Inr \<lparr>res_formatted = s, res_lines = splitlines s\<rparr>)"

subsection \<open>The formatter with the limits of \<^verbatim>\<open>" " * n\<close>\<close>

text \<open>
  \<^verbatim>\<open>sys.maxsize\<close> of a 64-bit CPython, the largest index.
\<close>

definition maxsize :: int where
  "maxsize = 2 ^ 63 - 1"

text \<open>
  \<^verbatim>\<open>" " * n\<close> as CPython evaluates it: the count is first turned into an index, which
  raises \<^verbatim>\<open>OverflowError\<close> outside \<open>- maxsize - 1 .. maxsize\<close>; a count that is not positive
  gives the empty string; otherwise the string is allocated, which raises
  \<^verbatim>\<open>MemoryError\<close> when the interpreter cannot allocate \<open>n\<close> characters. The parameter
  \<open>mem\<close> is the largest number of characters it can allocate.
\<close>

definition repeat_space :: "int \<Rightarrow> int \<Rightarrow> py_error + string" where
  "repeat_space mem n =
     (if n < - maxsize - 1 \<or> maxsize < n then Inl OverflowError
      else if n \<le> 0 then Inr []
      else if mem < n then Inl MemoryError
      else Inr (replicate (nat n) CHR '' ''))"








subsection \<open>Notions used in the statements and in the proofs\<close>

text \<open>
  A word is a non-empty string without whitespace. A group of words fits a width when
  its single-space join is no longer than the width or it has at most one word. The
  loop of \<^verbatim>\<open>wrap_paragraph\<close> keeps \<^verbatim>\<open>curr_len\<close> equal to the length of the join of
  \<^verbatim>\<open>current\<close>.
\<close>

definition word_ok :: "string \<Rightarrow> bool" where
  "word_ok w \<longleftrightarrow> w \<noteq> [] \<and> (\<forall>c\<in>set w. \<not> is_space c)"

definition fits :: "int \<Rightarrow> string list \<Rightarrow> bool" where
  "fits width g \<longleftrightarrow> int (length (join '' '' g)) \<le> width \<or> length g \<le> 1"

definition wrap_inv :: "string list \<Rightarrow> int \<Rightarrow> bool" where
  "wrap_inv current cl \<longleftrightarrow>
     (current = [] \<and> cl = 0) \<or> (current \<noteq> [] \<and> 0 < cl \<and> cl = int (length (join '' '' current)))"



text \<open>
  A tight line is non-empty, begins and ends with a character that is not whitespace
  and holds no line feed.
\<close>

definition tight :: "string \<Rightarrow> bool" where
  "tight l \<longleftrightarrow> l \<noteq> [] \<and> \<not> is_space (hd l) \<and> \<not> is_space (last l) \<and> CHR 0x0A \<notin> set l"





definition index_sized :: "int \<Rightarrow> bool" where
  "index_sized n \<longleftrightarrow> - maxsize - 1 \<le> n \<and> n \<le> maxsize"


section \<open>Properties\<close>

subsection \<open>Splitting and joining\<close>

lemma is_space_blank [simp]: "is_space CHR '' ''"
  by (simp add: is_space_def)

lemma is_space_LF [simp]: "is_space CHR 0x0A"
  by (simp add: is_space_def)

lemma split_scan_word: "\<forall>c\<in>set w. \<not> is_space c \<Longrightarrow> split_scan cur (w @ s) = split_scan (cur @ w) s"
  by (induction w arbitrary: cur) auto

lemma split_scan_sep:
  "is_space c \<Longrightarrow> split_scan cur (a @ c # b) = split_scan cur a @ split_scan [] b"
  by (induction a arbitrary: cur) auto

lemma split_scan_all_space:
  "\<forall>c\<in>set s. is_space c \<Longrightarrow> split_scan cur s = (if cur = [] then [] else [cur])"
  by (induction s arbitrary: cur) auto

lemma split_scan_words_ok':
  "\<forall>c\<in>set cur. \<not> is_space c \<Longrightarrow> \<forall>w\<in>set (split_scan cur s). word_ok w"
proof (induction s arbitrary: cur)
  case Nil
  then show ?case by (simp add: word_ok_def)
next
  case (Cons a s)
  have e: "\<forall>w\<in>set (split_scan [] s). word_ok w" by (rule Cons.IH) simp
  show ?case
  proof (cases "is_space a")
    case True
    with e Cons.prems show ?thesis by (simp add: word_ok_def)
  next
    case False
    with Cons.prems have "\<forall>c\<in>set (cur @ [a]). \<not> is_space c" by simp
    from Cons.IH [OF this] False show ?thesis by simp
  qed
qed

lemma split_scan_words_ok:
  "w \<in> set (split_scan cur s) \<Longrightarrow> \<forall>c\<in>set cur. \<not> is_space c \<Longrightarrow> word_ok w"
  using split_scan_words_ok' by blast

lemma split_ws_words_ok: "w \<in> set (split_ws s) \<Longrightarrow> word_ok w"
  unfolding split_ws_def by (erule split_scan_words_ok) simp

lemma split_ws_word: "word_ok w \<Longrightarrow> split_ws w = [w]"
  using split_scan_word [of w "[]" "[]"] by (simp add: split_ws_def word_ok_def)

lemma split_ws_join: "\<forall>w\<in>set ws. word_ok w \<Longrightarrow> split_ws (join '' '' ws) = ws"
proof (induction "'' ''" ws rule: join.induct)
  case 1
  show ?case by (simp add: split_ws_def)
next
  case (2 x)
  then show ?case by (simp add: split_ws_word)
next
  case (3 x y ys)
  have "split_ws (x @ CHR '' '' # join '' '' (y # ys)) = split_ws x @ split_ws (join '' '' (y # ys))"
    unfolding split_ws_def by (rule split_scan_sep) simp
  with 3 show ?case by (simp add: split_ws_word)
qed

lemma split_ws_sep: "is_space c \<Longrightarrow> split_ws (a @ c # b) = split_ws a @ split_ws b"
  unfolding split_ws_def by (rule split_scan_sep)


lemma join_snoc: "ws \<noteq> [] \<Longrightarrow> join sep (ws @ [w]) = join sep ws @ sep @ w"
  by (induction sep ws rule: join.induct) auto

subsection \<open>The wrapping loop\<close>

lemma wrap_loop_groups:
  assumes "\<forall>w\<in>set ws. w \<noteq> []" and "wrap_inv current cl" and "fits width current"
  shows "\<exists>gs cur' cl'.
           wrap_loop width ws (lines, current, cl) = (lines @ map (join '' '') gs, cur', cl')
         \<and> concat gs @ cur' = current @ ws
         \<and> (\<forall>g\<in>set gs. g \<noteq> [] \<and> fits width g)
         \<and> fits width cur' \<and> (cur' = [] \<longrightarrow> current = [] \<and> ws = [])"
  using assms
proof (induction ws arbitrary: lines current cl)
  case Nil
  then show ?case by auto
next
  case (Cons w ws)
  from Cons.prems have w: "w \<noteq> []" and ws: "\<forall>w\<in>set ws. w \<noteq> []" by simp_all
  have one: "wrap_inv [w] (int (length w))" "fits width [w]"
    using w by (simp_all add: wrap_inv_def fits_def)
  show ?case
  proof (cases "cl = 0")
    case True
    with Cons.prems have c: "current = []" by (auto simp: wrap_inv_def)
    from Cons.IH [OF ws one, of lines] obtain gs cur' cl' where
      "wrap_loop width ws (lines, [w], int (length w)) = (lines @ map (join '' '') gs, cur', cl')"
      "concat gs @ cur' = [w] @ ws" "\<forall>g\<in>set gs. g \<noteq> [] \<and> fits width g" "fits width cur'"
      "cur' = [] \<longrightarrow> [w] = [] \<and> ws = []"
      by blast
    with True c show ?thesis by auto
  next
    case False
    with Cons.prems have c: "current \<noteq> []" "0 < cl" "cl = int (length (join '' '' current))"
      by (auto simp: wrap_inv_def)
    show ?thesis
    proof (cases "cl + 1 + int (length w) \<le> width")
      case True
      have len: "int (length (join '' '' (current @ [w]))) = cl + (1 + int (length w))"
        using c by (simp add: join_snoc)
      have "wrap_inv (current @ [w]) (cl + (1 + int (length w)))"
        using c len by (simp add: wrap_inv_def)
      moreover have "fits width (current @ [w])"
        using True len by (simp add: fits_def)
      ultimately obtain gs cur' cl' where
        "wrap_loop width ws (lines, current @ [w], cl + (1 + int (length w)))
           = (lines @ map (join '' '') gs, cur', cl')"
        "concat gs @ cur' = (current @ [w]) @ ws" "\<forall>g\<in>set gs. g \<noteq> [] \<and> fits width g"
        "fits width cur'" "cur' = [] \<longrightarrow> current @ [w] = [] \<and> ws = []"
        using Cons.IH [OF ws, of "current @ [w]" "cl + (1 + int (length w))" lines] by blast
      with True False show ?thesis by auto
    next
      case nofit: False
      from Cons.IH [OF ws one, of "lines @ [join '' '' current]"] obtain gs cur' cl' where r:
        "wrap_loop width ws (lines @ [join '' '' current], [w], int (length w))
           = ((lines @ [join '' '' current]) @ map (join '' '') gs, cur', cl')"
        "concat gs @ cur' = [w] @ ws" "\<forall>g\<in>set gs. g \<noteq> [] \<and> fits width g" "fits width cur'"
        "cur' = [] \<longrightarrow> [w] = [] \<and> ws = []"
        by blast
      have "wrap_loop width (w # ws) (lines, current, cl)
              = (lines @ map (join '' '') (current # gs), cur', cl')"
        using r(1) nofit False by simp
      moreover have "concat (current # gs) @ cur' = current @ w # ws"
        using r(2) by simp
      moreover have "\<forall>g\<in>set (current # gs). g \<noteq> [] \<and> fits width g"
        using r(3) c Cons.prems(3) by simp
      ultimately show ?thesis using r(4,5) by blast
    qed
  qed
qed

lemma wrap_paragraph_groups:
  "\<exists>gs. wrap_paragraph p width = map (join '' '') gs \<and> concat gs = split_ws p
      \<and> (\<forall>g\<in>set gs. g \<noteq> [] \<and> fits width g)"
proof -
  have "\<forall>w\<in>set (split_ws p). w \<noteq> []"
    using split_ws_words_ok by (auto simp: word_ok_def)
  moreover have "wrap_inv [] 0" "fits width []" by (simp_all add: wrap_inv_def fits_def)
  ultimately obtain gs cur' cl' where r:
    "wrap_loop width (split_ws p) ([], [], 0) = ([] @ map (join '' '') gs, cur', cl')"
    "concat gs @ cur' = [] @ split_ws p" "\<forall>g\<in>set gs. g \<noteq> [] \<and> fits width g" "fits width cur'"
    using wrap_loop_groups [of "split_ws p" "[]" 0 width "[]"] by blast
  show ?thesis
  proof (cases "cur' = []")
    case True
    with r show ?thesis by (auto simp: wrap_paragraph_def)
  next
    case False
    with r have "wrap_paragraph p width = map (join '' '') (gs @ [cur'])"
      by (simp add: wrap_paragraph_def)
    moreover have "concat (gs @ [cur']) = split_ws p" using r(2) by simp
    moreover have "\<forall>g\<in>set (gs @ [cur']). g \<noteq> [] \<and> fits width g" using r(3,4) False by simp
    ultimately show ?thesis by blast
  qed
qed

subsection \<open>Lines returned by \<^verbatim>\<open>wrap_paragraph\<close>\<close>

lemma length_le_join: "w \<in> set g \<Longrightarrow> length w \<le> length (join sep g)"
  by (induction sep g rule: join.induct) auto

lemma short_list: "length g \<le> 1 \<Longrightarrow> w \<in> set g \<Longrightarrow> g = [w]"
  by (cases g) auto

lemma groups_words:
  assumes "concat gs = split_ws p" and "g \<in> set gs"
  shows "\<forall>w\<in>set g. word_ok w" and "split_ws (join '' '' g) = g"
proof -
  from assms have "set g \<subseteq> set (split_ws p)" by (metis Sup_upper image_eqI set_concat)
  then show "\<forall>w\<in>set g. word_ok w" using split_ws_words_ok by blast
  then show "split_ws (join '' '' g) = g" by (rule split_ws_join)
qed

lemma wrap_paragraph_words: "concat (map split_ws (wrap_paragraph p width)) = split_ws p"
proof -
  obtain gs where gs: "wrap_paragraph p width = map (join '' '') gs" "concat gs = split_ws p"
    using wrap_paragraph_groups by blast
  have "map split_ws (map (join '' '') gs) = gs"
    using groups_words(2) [OF gs(2)] by (simp add: map_idI)
  with gs show ?thesis by simp
qed

text \<open>
  Claim C5 (word atomicity). For every paragraph and width, the words of the lines
  returned by \<^verbatim>\<open>wrap_paragraph\<close>, line after line, are exactly the words of the
  paragraph in their order: no word is split, dropped, repeated or moved.
\<close>

theorem wrap_paragraph_word_atomicity:
  "concat (map split_ws (wrap_paragraph paragraph width)) = split_ws paragraph"
  by (rule wrap_paragraph_words)

text \<open>
  Claim C1 (width bound). Every line returned by \<^verbatim>\<open>wrap_paragraph\<close> is at most
  \<open>width\<close> long, or it is one single word of the paragraph that is longer than
  \<open>width\<close> (the line is that word, so its length is the word's length). Moreover
  every word of the paragraph that is longer than \<open>width\<close> is a line of its own; so a
  word of length 10 wrapped at width 5 is a line of length 10.
\<close>

theorem wrap_paragraph_width_bound:
  "(\<forall>line\<in>set (wrap_paragraph paragraph width).
      int (length line) \<le> width
      \<or> (line \<in> set (split_ws paragraph) \<and> split_ws line = [line] \<and> width < int (length line)))
   \<and> (\<forall>w\<in>set (split_ws paragraph).
        width < int (length w) \<longrightarrow> w \<in> set (wrap_paragraph paragraph width))"
proof -
  obtain gs where gs: "wrap_paragraph paragraph width = map (join '' '') gs"
    "concat gs = split_ws paragraph" "\<forall>g\<in>set gs. g \<noteq> [] \<and> fits width g"
    using wrap_paragraph_groups by blast
  have a: "int (length line) \<le> width
      \<or> (line \<in> set (split_ws paragraph) \<and> split_ws line = [line] \<and> width < int (length line))"
    if "line \<in> set (wrap_paragraph paragraph width)" for line
  proof -
    from that gs(1) obtain g where g: "g \<in> set gs" "line = join '' '' g" by auto
    show ?thesis
    proof (cases "int (length line) \<le> width")
      case True
      then show ?thesis by simp
    next
      case False
      with g gs(3) have "g \<noteq> []" "length g \<le> 1" by (auto simp: fits_def)
      then obtain w where w: "g = [w]" by (cases g) auto
      with g have "line = w" "w \<in> set (concat gs)" by (force+)
      with gs(2) False show ?thesis
        using split_ws_word [OF split_ws_words_ok, of line "paragraph"] by simp
    qed
  qed
  have b: "w \<in> set (wrap_paragraph paragraph width)"
    if "w \<in> set (split_ws paragraph)" "width < int (length w)" for w
  proof -
    from that gs(2) have "w \<in> set (concat gs)" by simp
    then obtain g where g: "g \<in> set gs" "w \<in> set g" by auto
    with that have "\<not> int (length (join '' '' g)) \<le> width"
      using length_le_join [of w g "'' ''"] by simp
    with g gs(3) have "length g \<le> 1" by (auto simp: fits_def)
    with g have "g = [w]" by (simp add: short_list)
    with g gs(1) show ?thesis by force
  qed
  from a b show ?thesis by blast
qed

theorem wrap_paragraph_width_bound_witness:
  "''abcdefghij'' \<in> set (split_ws ''ab abcdefghij c d'')
   \<and> (5::int) < int (length ''abcdefghij'')
   \<and> ''abcdefghij'' \<in> set (wrap_paragraph ''ab abcdefghij c d'' 5)
   \<and> ''c d'' \<in> set (wrap_paragraph ''ab abcdefghij c d'' 5)
   \<and> int (length ''c d'') \<le> 5
   \<and> wrap_paragraph ''abcdefghij'' 5 = [''abcdefghij'']"
proof -
  have s: "split_ws ''ab abcdefghij c d'' = [''ab'', ''abcdefghij'', ''c'', ''d'']"
    by (simp add: split_ws_def is_space_def)
  have w: "wrap_paragraph ''ab abcdefghij c d'' 5 = [''ab'', ''abcdefghij'', ''c d'']"
    by (simp add: wrap_paragraph_def s)
  have "wrap_paragraph ''abcdefghij'' 5 = [''abcdefghij'']"
    by (simp add: wrap_paragraph_def split_ws_def is_space_def)
  with s w show ?thesis
    using wrap_paragraph_width_bound [of "''ab abcdefghij c d''" 5] by simp
qed

subsection \<open>The result of \<^verbatim>\<open>justify_line\<close>\<close>










lemma wrap_line_group:
  assumes "line \<in> set (wrap_paragraph p width)"
  shows "\<exists>g. line = join '' '' g \<and> g \<noteq> [] \<and> (\<forall>w\<in>set g. word_ok w) \<and> fits width g
           \<and> split_ws line = g"
proof -
  obtain gs where gs: "wrap_paragraph p width = map (join '' '') gs"
    "concat gs = split_ws p" "\<forall>g\<in>set gs. g \<noteq> [] \<and> fits width g"
    using wrap_paragraph_groups by blast
  with assms obtain g where g: "g \<in> set gs" "line = join '' '' g" by auto
  with gs(3) groups_words [OF gs(2) g(1)] show ?thesis by auto
qed






subsection \<open>Justified paragraphs, empty texts and one scenario\<close>









lemma strip_all_space: "\<forall>c\<in>set t. is_space c \<Longrightarrow> strip t = []"
  by (auto simp: strip_def dest: set_dropWhileD)

lemma re_split_Nil: "re_split [] = [[]]"
  by (simp add: re_split_def)

lemma wrap_paragraph_Nil: "wrap_paragraph [] width = []"
  by (simp add: wrap_paragraph_def split_ws_def)

lemma para_lines_Nil: "para_lines width j jl [] = Inr []"
  by (simp add: para_lines_def split_ws_def wrap_paragraph_Nil justify_paragraph_def)

text \<open>
  Claim C7 (whitespace-only input). When every character of the input is whitespace
  (the empty input included), the stripped text splits into the single paragraph
  \<open>[]\<close>, whose normal form is empty, wrapping it gives no line, and \<^verbatim>\<open>format_text\<close>
  returns the empty string for every width and every setting of the two flags.
\<close>

theorem format_text_whitespace_only:
  assumes "\<forall>c\<in>set t. is_space c"
  shows "re_split (strip t) = [[]]
       \<and> map (\<lambda>p. join '' '' (split_ws p)) (re_split (strip t)) = [[]]
       \<and> wrap_paragraph [] width = []
       \<and> para_lines width j jl [] = Inr []
       \<and> format_text self t wopt j jl = Inr []"
proof -
  from assms have s: "re_split (strip t) = [[]]"
    by (simp add: strip_all_space re_split_Nil)
  have "format_text self t wopt j jl = Inr []"
    by (simp add: format_text_def s para_lines_Nil)
  with s show ?thesis by (simp add: wrap_paragraph_Nil para_lines_Nil split_ws_def)
qed

theorem format_text_whitespace_only_witness:
  "is_space CHR '' '' \<and> is_space CHR 0x0A \<and> is_space CHR 0x09
   \<and> format_text formatter [CHR '' '', CHR 0x0A, CHR 0x09, CHR '' ''] (Some 20) True False = Inr []
   \<and> format_text formatter [] None False False = Inr []"
proof -
  have a: "\<forall>c\<in>set [CHR '' '', CHR 0x0A, CHR 0x09, CHR '' '']. is_space c"
    by (simp add: is_space_def)
  have b: "\<forall>c\<in>set []. is_space c" by simp
  from format_text_whitespace_only [OF a, of 20 True False formatter "Some 20"]
    format_text_whitespace_only [OF b, of 40 False False formatter None] a
  show ?thesis by simp
qed

text \<open>
  Claim C6 (scenario 3), as the code behaves. With width 7 the first wrapped line
  \<open>aaa bbb\<close> is already 7 characters wide, so its single gap gets one space, not four.
\<close>

theorem format_endpoint_scenario3:
  "format_endpoint \<lparr>req_text = ''aaa bbb ccc ddd'', req_width = 7, req_justify = True,
      req_justify_last_line = False\<rparr>
   = Inr \<lparr>res_formatted = ''aaa bbb'' @ [CHR 0x0A] @ ''ccc ddd'',
          res_lines = [''aaa bbb'', ''ccc ddd'']\<rparr>"
  by code_simp

theorem format_endpoint_scenario3_counterexample:
  "map_sum id res_lines
     (format_endpoint \<lparr>req_text = ''aaa bbb ccc ddd'', req_width = 7, req_justify = True,
        req_justify_last_line = False\<rparr>)
   \<noteq> Inr [''aaa    bbb'', ''ccc ddd'']"
  by code_simp

subsection \<open>Totality and the limits of repetition\<close>






lemma repeat_space_overflow:
  "\<not> index_sized n \<Longrightarrow> repeat_space mem n = Inl OverflowError"
  by (auto simp: repeat_space_def index_sized_def)





























subsection \<open>Formatting a wrapped paragraph again\<close>

lemma word_tight: "word_ok w \<Longrightarrow> tight w"
  by (cases w) (auto simp: word_ok_def tight_def)

lemma tight_join_blank:
  "g \<noteq> [] \<Longrightarrow> \<forall>w\<in>set g. word_ok w \<Longrightarrow> tight (join '' '' g)"
proof (induction "'' ''" g rule: join.induct)
  case 1
  then show ?case by simp
next
  case (2 x)
  then show ?case by (simp add: word_tight)
next
  case (3 x y ys)
  then have t: "tight x" "tight (join '' '' (y # ys))" by (simp_all add: word_tight)
  then show ?case by (auto simp: tight_def)
qed

lemma wrap_line_tight: "line \<in> set (wrap_paragraph p width) \<Longrightarrow> tight line"
  using wrap_line_group tight_join_blank by blast

lemma join_nonempty: "xs \<noteq> [] \<Longrightarrow> last xs \<noteq> [] \<Longrightarrow> join sep xs \<noteq> []"
  by (induction sep xs rule: join.induct) auto

lemma hd_join: "xs \<noteq> [] \<Longrightarrow> hd xs \<noteq> [] \<Longrightarrow> hd (join sep xs) = hd (hd xs)"
  by (induction sep xs rule: join.induct) auto

lemma last_join: "xs \<noteq> [] \<Longrightarrow> last xs \<noteq> [] \<Longrightarrow> last (join sep xs) = last (last xs)"
  by (induction sep xs rule: join.induct) (auto simp: join_nonempty)

lemma dropWhile_hd: "xs = [] \<or> \<not> P (hd xs) \<Longrightarrow> dropWhile P xs = xs"
  by (cases xs) auto

lemma strip_tight:
  assumes "s = [] \<or> (\<not> is_space (hd s) \<and> \<not> is_space (last s))"
  shows "strip s = s"
proof -
  from assms have "s = [] \<or> \<not> is_space (hd s)" by blast
  then have 1: "dropWhile is_space s = s" by (rule dropWhile_hd)
  from assms have "rev s = [] \<or> \<not> is_space (hd (rev s))" by (auto simp: hd_rev)
  then have 2: "dropWhile is_space (rev s) = rev s" by (rule dropWhile_hd)
  show ?thesis by (simp add: strip_def 1 2)
qed

lemma match_sep_not_LF: "c \<noteq> CHR 0x0A \<Longrightarrow> match_sep (c # cs) = None"
  by (simp add: match_sep_def)

lemma match_sep_tight_next:
  "cs = [] \<or> \<not> is_space (hd cs) \<Longrightarrow> match_sep (c # cs) = None"
  by (cases cs) (auto simp: match_sep_def)

lemma re_split_scan_no_LF:
  "CHR 0x0A \<notin> set l \<Longrightarrow> re_split_scan cur (l @ rest) = re_split_scan (cur @ l) rest"
  by (induction l arbitrary: cur) (auto simp: match_sep_not_LF)

lemma re_split_scan_lines:
  "\<forall>l\<in>set X. tight l \<Longrightarrow> re_split_scan cur (join [CHR 0x0A] X) = [cur @ join [CHR 0x0A] X]"
proof (induction "[CHR 0x0A]" X arbitrary: cur rule: join.induct)
  case 1
  show ?case by simp
next
  case (2 x)
  then have "CHR 0x0A \<notin> set x" by (simp add: tight_def)
  from re_split_scan_no_LF [OF this, of cur "[]"] show ?case by simp
next
  case (3 x y ys)
  then have x: "CHR 0x0A \<notin> set x" and y: "y \<noteq> []" "\<not> is_space (hd y)"
    by (simp_all add: tight_def)
  let ?r = "join [CHR 0x0A] (y # ys)"
  from y have "?r = [] \<or> \<not> is_space (hd ?r)" by (simp add: hd_join)
  then have m: "match_sep (CHR 0x0A # ?r) = None" by (rule match_sep_tight_next)
  have "re_split_scan cur (x @ CHR 0x0A # ?r) = re_split_scan (cur @ x) (CHR 0x0A # ?r)"
    by (rule re_split_scan_no_LF [OF x])
  also have "\<dots> = re_split_scan ((cur @ x) @ [CHR 0x0A]) ?r" using m by simp
  also have "\<dots> = [((cur @ x) @ [CHR 0x0A]) @ ?r]" using 3 by simp
  finally show ?case by simp
qed

lemma split_ws_lines: "split_ws (join [CHR 0x0A] X) = concat (map split_ws X)"
proof (induction "[CHR 0x0A]" X rule: join.induct)
  case 1
  show ?case by (simp add: split_ws_def)
next
  case (2 x)
  show ?case by simp
next
  case (3 x y ys)
  have "split_ws (x @ CHR 0x0A # join [CHR 0x0A] (y # ys))
          = split_ws x @ split_ws (join [CHR 0x0A] (y # ys))"
    by (rule split_ws_sep) simp
  with 3 show ?case by simp
qed

lemma tight_lines_join:
  assumes "\<forall>l\<in>set X. tight l"
  shows "join [CHR 0x0A] X = [] \<or>
         (\<not> is_space (hd (join [CHR 0x0A] X)) \<and> \<not> is_space (last (join [CHR 0x0A] X)))"
proof (cases "X = []")
  case True
  then show ?thesis by simp
next
  case False
  then have "hd X \<in> set X" "last X \<in> set X" by simp_all
  with assms have "tight (hd X)" "tight (last X)" by blast+
  with False show ?thesis by (simp add: hd_join last_join tight_def)
qed

lemma format_text_single:
  assumes "re_split (strip t) = [p]"
  shows "format_text self t wopt False jl =
     Inr (join [CHR 0x0A] (wrap_paragraph (join '' '' (split_ws p))
            (case wopt of None \<Rightarrow> default_width self | Some w \<Rightarrow> w)))"
  using assms by (simp add: format_text_def para_lines_def Let_def)

lemma re_split_single: "length (re_split s) = 1 \<Longrightarrow> \<exists>p. re_split s = [p]"
  by (cases "re_split s") auto

lemma format_text_wrap_again:
  assumes "re_split (strip t) = [p]"
  shows "format_text self
           (join [CHR 0x0A] (wrap_paragraph (join '' '' (split_ws p)) w)) (Some w) False jl
         = Inr (join [CHR 0x0A] (wrap_paragraph (join '' '' (split_ws p)) w))"
proof -
  let ?c = "join '' '' (split_ws p)"
  let ?X = "wrap_paragraph ?c w"
  let ?out = "join [CHR 0x0A] ?X"
  have t: "\<forall>l\<in>set ?X. tight l" using wrap_line_tight by blast
  have c: "split_ws ?c = split_ws p"
    using split_ws_words_ok by (intro split_ws_join) blast
  have "split_ws ?out = concat (map split_ws ?X)" by (rule split_ws_lines)
  also have "\<dots> = split_ws ?c" by (rule wrap_paragraph_words)
  finally have w: "join '' '' (split_ws ?out) = ?c" using c by simp
  have s: "strip ?out = ?out" using tight_lines_join [OF t] by (rule strip_tight)
  have r: "re_split ?out = [?out]"
    using re_split_scan_lines [OF t, of "[]"] by (simp add: re_split_def)
  have "re_split (strip ?out) = [?out]" using s r by simp
  from format_text_single [OF this, of self "Some w" jl] w show ?thesis by simp
qed

text \<open>
  Claim C9 (idempotence of wrapping). When the stripped text has no separator of
  paragraphs, so that it is one paragraph, \<^verbatim>\<open>format_text\<close> with \<^verbatim>\<open>justify\<close> false returns
  a string that \<^verbatim>\<open>format_text\<close>, with the same width and \<^verbatim>\<open>justify\<close> false, maps to
  itself. This holds for every width, in particular for every width of at least 1.
\<close>

theorem format_text_wrap_idempotent:
  assumes "length (re_split (strip t)) = 1"
  shows "\<exists>out. format_text self t (Some w) False jl = Inr out
             \<and> format_text self out (Some w) False jl = Inr out"
proof -
  from assms obtain p where p: "re_split (strip t) = [p]" using re_split_single by blast
  from format_text_single [OF p, of self "Some w" jl] format_text_wrap_again [OF p, of self w jl]
  show ?thesis by simp
qed

theorem format_text_wrap_idempotent_witness:
  "length (re_split (strip ''  aaa   bbb ccc ddd '')) = 1
   \<and> format_text formatter ''  aaa   bbb ccc ddd '' (Some 7) False False
       = Inr (''aaa bbb'' @ [CHR 0x0A] @ ''ccc ddd'')
   \<and> format_text formatter (''aaa bbb'' @ [CHR 0x0A] @ ''ccc ddd'') (Some 7) False False
       = Inr (''aaa bbb'' @ [CHR 0x0A] @ ''ccc ddd'')"
proof -
  have h: "length (re_split (strip ''  aaa   bbb ccc ddd '')) = 1" by code_simp
  have f: "format_text formatter ''  aaa   bbb ccc ddd '' (Some 7) False False
       = Inr (''aaa bbb'' @ [CHR 0x0A] @ ''ccc ddd'')" by code_simp
  from format_text_wrap_idempotent [OF h, of formatter 7 False] f h
  show ?thesis by simp
qed

subsection \<open>Paragraphs and the lines of the endpoint\<close>

























lemma splitlines_scan_closed: "cur \<noteq> [] \<Longrightarrow> splitlines_scan cur [] = [cur]"
  by simp













end
